theory Spec2Isabelle
  imports Main "HOL-Library.Sublist"
begin

section \<open>Text, messages and configuration\<close>

text \<open>
  Python strings are modelled as \<open>string\<close> (lists of 8-bit characters), which covers ASCII
  text exactly; a character outside ASCII counts as not being whitespace and is left as it
  is by \<^verbatim>\<open>lower()\<close>.  The substring test \<^verbatim>\<open>a in b\<close> is \<open>str_contains a b\<close>.
\<close>

definition str_contains :: "string \<Rightarrow> string \<Rightarrow> bool" where
  "str_contains sub s = sublist sub s"

text \<open>A message is a dictionary with the two keys \<^verbatim>\<open>role\<close> and \<^verbatim>\<open>content\<close>.\<close>

record msg =
  role :: string
  content :: string

definition FEEDBACK_MARK :: string where
  "FEEDBACK_MARK = ''User Feedback:''"

definition GEN_MARK :: string where
  "GEN_MARK = ''We are in the Code Generation Step.''"

definition JUDGE_MARK :: string where
  "JUDGE_MARK = ''We are in the Code Judgment Step.''"

section \<open>prune_history\<close>

text \<open>
  The three tests of the loop body of \<^verbatim>\<open>prune_history\<close>:
  \<^verbatim>\<open>msg["role"] == "user" and "User Feedback:" in msg["content"]\<close>,
  \<^verbatim>\<open>msg["role"] == "assistant"\<close>, and the test for one of the two step markers.
\<close>

definition is_feedback :: "msg \<Rightarrow> bool" where
  "is_feedback m = (role m = ''user'' \<and> str_contains FEEDBACK_MARK (content m))"

definition is_assistant :: "msg \<Rightarrow> bool" where
  "is_assistant m = (role m = ''assistant'')"

definition is_step :: "msg \<Rightarrow> bool" where
  "is_step m = (str_contains GEN_MARK (content m) \<or> str_contains JUDGE_MARK (content m))"

text \<open>
  The \<^verbatim>\<open>for msg in reversed(remainder)\<close> loop.  Its state is the list \<^verbatim>\<open>kept_reversed\<close>
  (appended to at the end) and the counter \<^verbatim>\<open>code_round_count\<close>.
\<close>

fun prune_loop :: "int \<Rightarrow> msg list \<Rightarrow> msg list \<Rightarrow> int \<Rightarrow> msg list" where
  "prune_loop max_code_rounds [] kept_reversed code_round_count = kept_reversed"
| "prune_loop max_code_rounds (m # ms) kept_reversed code_round_count =
     (if is_feedback m then
        prune_loop max_code_rounds ms (kept_reversed @ [m]) code_round_count
      else if code_round_count < max_code_rounds then
        (if is_assistant m then
           prune_loop max_code_rounds ms (kept_reversed @ [m]) code_round_count
         else if is_step m then
           prune_loop max_code_rounds ms (kept_reversed @ [m]) (code_round_count + 1)
         else
           prune_loop max_code_rounds ms kept_reversed code_round_count)
      else
        prune_loop max_code_rounds ms kept_reversed code_round_count)"

definition prune_history :: "msg list \<Rightarrow> int \<Rightarrow> msg list" where
  "prune_history conversation_history max_code_rounds =
     (if length conversation_history \<le> 2 then conversation_history
      else
        let pinned = take 2 conversation_history;
            remainder = drop 2 conversation_history;
            kept_reversed = prune_loop max_code_rounds (rev remainder) [] 0
        in pinned @ rev kept_reversed)"

text \<open>
  The messages the loop keeps, in scanning order, as a function of the counter alone.
  It is used to reason about \<open>prune_loop\<close> without the accumulator.
\<close>

fun retained :: "int \<Rightarrow> int \<Rightarrow> msg list \<Rightarrow> msg list" where
  "retained n c [] = []"
| "retained n c (m # ms) =
     (if is_feedback m then m # retained n c ms
      else if c < n then
        (if is_assistant m then m # retained n c ms
         else if is_step m then m # retained n (c + 1) ms
         else retained n c ms)
      else retained n c ms)"

text \<open>A message that takes one unit of the round budget when it is kept.\<close>

definition is_round :: "msg \<Rightarrow> bool" where
  "is_round m = (\<not> is_feedback m \<and> \<not> is_assistant m \<and> is_step m)"

text \<open>Some messages, for the worked instances below.\<close>

definition sys_msg :: msg where
  "sys_msg = \<lparr>role = ''system'', content = ''You are a helpful AI assistant''\<rparr>"

definition task_msg :: msg where
  "task_msg = \<lparr>role = ''user'', content = ''print Hello''\<rparr>"

definition gen_msg :: msg where
  "gen_msg = \<lparr>role = ''user'', content = ''We are in the Code Generation Step. Go''\<rparr>"

definition reply_msg :: msg where
  "reply_msg = \<lparr>role = ''assistant'', content = ''ok''\<rparr>"

definition fb_msg :: msg where
  "fb_msg = \<lparr>role = ''user'', content = ''User Feedback: use colours''\<rparr>"

section \<open>Properties of prune_history\<close>

lemma prune_loop_retained:
  "prune_loop n ms kept c = kept @ retained n c ms"
  by (induction ms arbitrary: kept c) simp_all

lemma prune_history_alt:
  "prune_history T n =
     (if length T \<le> 2 then T else take 2 T @ rev (retained n 0 (rev (drop 2 T))))"
  by (simp add: prune_history_def prune_loop_retained)

lemma retained_idem: "retained n c (retained n c ms) = retained n c ms"
  by (induction ms arbitrary: c) simp_all

lemma retained_filter_feedback:
  "filter is_feedback (retained n c ms) = filter is_feedback ms"
  by (induction ms arbitrary: c) simp_all

lemma retained_filter_other:
  "filter (\<lambda>m. \<not> is_feedback m) (retained n c ms)
     = retained n c (filter (\<lambda>m. \<not> is_feedback m) ms)"
  by (induction ms arbitrary: c) simp_all

lemma msg_examples:
  "is_feedback fb_msg" "\<not> is_feedback gen_msg" "\<not> is_feedback reply_msg"
  "is_assistant reply_msg" "\<not> is_assistant gen_msg" "is_step gen_msg"
  by (simp_all add: is_feedback_def is_assistant_def is_step_def fb_msg_def gen_msg_def
      reply_msg_def str_contains_def FEEDBACK_MARK_def GEN_MARK_def JUDGE_MARK_def
      sublist_code prefix_code)

text \<open>
  C1.  Pruning is idempotent: for every transcript and every round budget, pruning the
  pruned transcript again with the same budget returns it unchanged.
\<close>

theorem prune_history_idempotent:
  "prune_history (prune_history T n) n = prune_history T n"
proof (cases "length T \<le> 2")
  case True
  then show ?thesis by (simp add: prune_history_alt)
next
  case False
  define K where "K = retained n 0 (rev (drop 2 T))"
  have P: "prune_history T n = take 2 T @ rev K"
    using False by (simp add: prune_history_alt K_def)
  have len: "length (take 2 T) = 2" using False by simp
  show ?thesis
  proof (cases "K = []")
    case True
    then show ?thesis using P len by (simp add: prune_history_alt)
  next
    case nonempty: False
    have "retained n 0 (rev (drop 2 (take 2 T @ rev K))) = K"
      using len by (simp add: K_def retained_idem)
    moreover have "take 2 (take 2 T @ rev K) = take 2 T"
      using len by simp
    moreover have "\<not> length (take 2 T @ rev K) \<le> 2"
      using len nonempty by simp
    ultimately have "prune_history (take 2 T @ rev K) n = take 2 T @ rev K"
      by (simp only: prune_history_alt if_False)
    then show ?thesis by (simp only: P)
  qed
qed

text \<open>
  C8.  For every transcript with at least two messages and every budget \<open>n \<ge> 0\<close>, the
  pruned transcript starts with the first two messages of the transcript, unchanged.
\<close>

theorem prune_history_pinned:
  assumes "2 \<le> length T" and "0 \<le> n"
  shows "take 2 (prune_history T n) = take 2 T
         \<and> prune_history T n ! 0 = T ! 0 \<and> prune_history T n ! 1 = T ! 1
         \<and> 2 \<le> length (prune_history T n)"
proof (cases "length T \<le> 2")
  case True
  then show ?thesis using assms by (simp add: prune_history_alt)
next
  case False
  have len: "length (take 2 T) = 2" using False by simp
  have P: "prune_history T n = take 2 T @ rev (retained n 0 (rev (drop 2 T)))"
    using False by (simp add: prune_history_alt)
  have "take 2 (prune_history T n) = take 2 T"
    using len by (simp add: P)
  moreover have "prune_history T n ! 0 = T ! 0" "prune_history T n ! 1 = T ! 1"
    using len False by (simp_all add: P nth_append)
  moreover have "2 \<le> length (prune_history T n)"
    using len by (simp add: P)
  ultimately show ?thesis by simp
qed

theorem prune_history_pinned_witness:
  "2 \<le> length [sys_msg, task_msg, gen_msg, reply_msg] \<and> (0::int) \<le> 0
   \<and> take 2 (prune_history [sys_msg, task_msg, gen_msg, reply_msg] 0) = [sys_msg, task_msg]
   \<and> prune_history [sys_msg, task_msg, gen_msg, reply_msg] 0 ! 0 = sys_msg
   \<and> prune_history [sys_msg, task_msg, gen_msg, reply_msg] 0 ! 1 = task_msg"
  using prune_history_pinned [of "[sys_msg, task_msg, gen_msg, reply_msg]" 0] by simp

text \<open>
  C7.  Every user message carrying the feedback marker that occurs in the transcript also
  occurs in the pruned transcript, whatever the budget (indeed the feedback messages of
  both are the same sequence), and keeping them takes nothing from the round budget: the
  other messages kept after the two pinned ones are exactly those kept when the feedback
  messages are taken out of the transcript first.
\<close>

theorem prune_history_keeps_feedback:
  "(\<forall>m \<in> set T. is_feedback m \<longrightarrow> m \<in> set (prune_history T n))
   \<and> filter is_feedback (prune_history T n) = filter is_feedback T
   \<and> filter (\<lambda>m. \<not> is_feedback m) (drop 2 (prune_history T n))
       = drop 2 (prune_history (take 2 T @ filter (\<lambda>m. \<not> is_feedback m) (drop 2 T)) n)"
proof -
  have F: "filter is_feedback (prune_history T n) = filter is_feedback T"
  proof (cases "length T \<le> 2")
    case True
    then show ?thesis by (simp add: prune_history_alt)
  next
    case False
    have "filter is_feedback (take 2 T @ rev (retained n 0 (rev (drop 2 T))))
            = filter is_feedback (take 2 T) @ filter is_feedback (drop 2 T)"
      by (simp add: rev_filter [symmetric] retained_filter_feedback)
    also have "\<dots> = filter is_feedback T"
      by (simp only: filter_append [symmetric] append_take_drop_id)
    finally show ?thesis using False by (simp add: prune_history_alt)
  qed
  have M: "\<forall>m \<in> set T. is_feedback m \<longrightarrow> m \<in> set (prune_history T n)"
  proof (intro ballI impI)
    fix m assume "m \<in> set T" "is_feedback m"
    then have "m \<in> set (filter is_feedback T)" by simp
    then have "m \<in> set (filter is_feedback (prune_history T n))" by (simp only: F)
    then show "m \<in> set (prune_history T n)" by simp
  qed
  have B: "filter (\<lambda>m. \<not> is_feedback m) (drop 2 (prune_history T n))
       = drop 2 (prune_history (take 2 T @ filter (\<lambda>m. \<not> is_feedback m) (drop 2 T)) n)"
  proof (cases "length T \<le> 2")
    case True
    then show ?thesis by (simp add: prune_history_alt)
  next
    case False
    have len: "length (take 2 T) = 2" using False by simp
    let ?R = "filter (\<lambda>m. \<not> is_feedback m) (drop 2 T)"
    have L: "filter (\<lambda>m. \<not> is_feedback m) (drop 2 (prune_history T n))
               = rev (retained n 0 (rev ?R))"
      using False len
      by (simp add: prune_history_alt rev_filter [symmetric] retained_filter_other)
    show ?thesis
    proof (cases "?R = []")
      case True
      then show ?thesis using L len by (simp add: prune_history_alt)
    next
      case nonempty: False
      then have "\<not> length (take 2 T @ ?R) \<le> 2" using len by simp
      then have "prune_history (take 2 T @ ?R) n
                   = take 2 (take 2 T @ ?R) @ rev (retained n 0 (rev (drop 2 (take 2 T @ ?R))))"
        by (simp only: prune_history_alt if_False)
      then show ?thesis using L len by simp
    qed
  qed
  from M F B show ?thesis by blast
qed

theorem prune_history_keeps_feedback_witness:
  "fb_msg \<in> set [sys_msg, task_msg, fb_msg, gen_msg, reply_msg] \<and> is_feedback fb_msg
   \<and> fb_msg \<in> set (prune_history [sys_msg, task_msg, fb_msg, gen_msg, reply_msg] 0)"
  using prune_history_keeps_feedback [of "[sys_msg, task_msg, fb_msg, gen_msg, reply_msg]" 0]
  by (simp add: msg_examples)

section \<open>extract_code_blocks\<close>

text \<open>
  \<^verbatim>\<open>re.findall(r"```(?:python)?\s*(.*?)\s*```", response, flags=re.DOTALL)\<close> is modelled by
  a matcher that follows the backtracking order of the pattern: the optional group is tried
  first with \<^verbatim>\<open>python\<close>, a greedy \<^verbatim>\<open>\s*\<close> first takes one more character, the lazy
  group first takes none.  Each function returns \<open>None\<close> when its part of the pattern cannot
  match, and otherwise the text left after the match (with the captured group, once there
  is one).  \<open>is_space\<close> is the class \<^verbatim>\<open>\s\<close> on ASCII characters, which is also the set
  that \<^verbatim>\<open>str.strip()\<close> removes.
\<close>

definition is_space :: "char \<Rightarrow> bool" where
  "is_space c = (let n = (of_char c :: nat) in (9 \<le> n \<and> n \<le> 13) \<or> (28 \<le> n \<and> n \<le> 32))"

definition FENCE :: string where
  "FENCE = ''```''"

text \<open>
  \<open>m_fence\<close> matches the literal fence, \<open>m_close\<close> the end \<^verbatim>\<open>\s*```\<close> of the pattern,
  \<open>m_lazy\<close> the part \<^verbatim>\<open>(.*?)\s*```\<close>, \<open>m_ws\<close> the part \<^verbatim>\<open>\s*(.*?)\s*```\<close>, and
  \<open>m_pattern\<close> the whole pattern at the start of the text.
\<close>

definition m_fence :: "string \<Rightarrow> string option" where
  "m_fence s = (if prefix FENCE s then Some (drop 3 s) else None)"

fun m_close :: "string \<Rightarrow> string option" where
  "m_close [] = m_fence []"
| "m_close (c # cs) =
     (if is_space c then
        (case m_close cs of Some r \<Rightarrow> Some r | None \<Rightarrow> m_fence (c # cs))
      else m_fence (c # cs))"

fun m_lazy :: "string \<Rightarrow> (string \<times> string) option" where
  "m_lazy [] = (case m_close [] of Some r \<Rightarrow> Some ([], r) | None \<Rightarrow> None)"
| "m_lazy (c # cs) =
     (case m_close (c # cs) of
        Some r \<Rightarrow> Some ([], r)
      | None \<Rightarrow> (case m_lazy cs of Some (cap, r) \<Rightarrow> Some (c # cap, r) | None \<Rightarrow> None))"

fun m_ws :: "string \<Rightarrow> (string \<times> string) option" where
  "m_ws [] = m_lazy []"
| "m_ws (c # cs) =
     (if is_space c then
        (case m_ws cs of Some x \<Rightarrow> Some x | None \<Rightarrow> m_lazy (c # cs))
      else m_lazy (c # cs))"

definition m_pattern :: "string \<Rightarrow> (string \<times> string) option" where
  "m_pattern s =
     (if prefix FENCE s then
        let r = drop 3 s in
        if prefix ''python'' r then
          (case m_ws (drop 6 r) of Some x \<Rightarrow> Some x | None \<Rightarrow> m_ws r)
        else m_ws r
      else None)"

text \<open>A match consumes at least the opening fence, so the scan of \<open>findall\<close> ends.\<close>

lemma m_fence_len: "m_fence s = Some r \<Longrightarrow> length r < length s"
  by (auto simp: m_fence_def FENCE_def prefix_def split: if_splits)

lemma m_close_len: "m_close s = Some r \<Longrightarrow> length r < length s"
  by (induction s arbitrary: r) (auto split: if_splits option.splits dest: m_fence_len)

lemma m_lazy_len: "m_lazy s = Some (cap, r) \<Longrightarrow> length r < length s"
  by (induction s arbitrary: cap r) (auto split: if_splits option.splits dest: m_close_len m_fence_len)

lemma m_ws_len: "m_ws s = Some (cap, r) \<Longrightarrow> length r < length s"
  by (induction s arbitrary: cap r)
    (auto simp del: m_lazy.simps split: if_splits option.splits dest: m_lazy_len)

lemma m_pattern_len: "m_pattern s = Some (cap, r) \<Longrightarrow> length r < length s"
  by (auto simp: m_pattern_def Let_def split: if_splits option.splits dest!: m_ws_len)

text \<open>
  \<^verbatim>\<open>re.findall\<close>: the groups of the matches from left to right, each search starting where
  the match before ended.
\<close>

function findall :: "string \<Rightarrow> string list" where
  "findall [] = []"
| "findall (c # cs) =
     (case m_pattern (c # cs) of
        Some (cap, rest) \<Rightarrow> cap # findall rest
      | None \<Rightarrow> findall cs)"
  by pat_completeness auto
termination
  by (relation "measure length") (auto dest: m_pattern_len)

definition extract_code_blocks :: "string \<Rightarrow> string" where
  "extract_code_blocks response =
     (let code_match = findall response in
      if code_match \<noteq> [] then last code_match else [])"

text \<open>\<^verbatim>\<open>str.rstrip()\<close> and \<^verbatim>\<open>str.strip()\<close>.\<close>

definition py_rstrip :: "string \<Rightarrow> string" where
  "py_rstrip s = rev (dropWhile is_space (rev s))"

definition py_strip :: "string \<Rightarrow> string" where
  "py_strip s = py_rstrip (dropWhile is_space s)"

text \<open>
  The blocks that the pattern finds, described without a pattern matcher: \<open>split_fence\<close>
  cuts a text at its first fence; a block opens at a fence and closes at the next fence
  behind it; its contents are the text between the two without the literal prefix
  \<^verbatim>\<open>python\<close> directly behind the opening fence (\<open>drop_python\<close>: no other tag is known,
  and the prefix is also taken off a longer word) and without the whitespace around the
  rest; the next block is looked for behind the closing fence.  \<open>fenced_blocks\<close> is compared
  with \<open>findall\<close> below.
\<close>

fun split_fence :: "string \<Rightarrow> (string \<times> string) option" where
  "split_fence [] = None"
| "split_fence (c # cs) =
     (if prefix FENCE (c # cs) then Some ([], drop 3 (c # cs))
      else map_option (\<lambda>(a, b). (c # a, b)) (split_fence cs))"

definition drop_python :: "string \<Rightarrow> string" where
  "drop_python r = (if prefix ''python'' r then drop 6 r else r)"

lemma split_fence_len: "split_fence s = Some (a, r) \<Longrightarrow> length r < length s"
  by (induction s arbitrary: a r) (auto split: if_splits)

lemma drop_python_len: "length (drop_python r) \<le> length r"
  by (simp add: drop_python_def)

function fenced_blocks :: "string \<Rightarrow> string list" where
  "fenced_blocks s =
     (case split_fence s of
        None \<Rightarrow> []
      | Some (before, r) \<Rightarrow>
          (case split_fence (drop_python r) of
             None \<Rightarrow> []
           | Some (body, rest) \<Rightarrow> py_strip body # fenced_blocks rest))"
  by pat_completeness auto
termination
proof (relation "measure length", goal_cases)
  case 1
  then show ?case by simp
next
  case (2 s x2 before r x2a body rest)
  then have "length r < length s" "length rest < length (drop_python r)"
    by (auto dest: split_fence_len)
  then show ?case using drop_python_len [of r] by simp
qed

declare fenced_blocks.simps [simp del]

lemma backtick_not_space: "\<not> is_space (CHR ''`'')"
  by (simp add: is_space_def)

lemma prefix_FENCE_Cons: "prefix FENCE (c # cs) \<Longrightarrow> c = CHR ''`''"
  by (simp add: FENCE_def)

lemma m_fence_Nil: "m_fence [] = None"
  by (simp add: m_fence_def FENCE_def)

lemma m_close_eq: "m_close s = m_fence (dropWhile is_space s)"
proof (induction s)
  case Nil
  show ?case by simp
next
  case (Cons c cs)
  show ?case
  proof (cases "is_space c")
    case True
    then have "\<not> prefix FENCE (c # cs)"
      using backtick_not_space prefix_FENCE_Cons by blast
    then have "m_fence (c # cs) = None" by (simp add: m_fence_def)
    then show ?thesis using True Cons by (simp split: option.splits)
  next
    case False
    then show ?thesis by simp
  qed
qed

lemma split_fence_spaces:
  "prefix FENCE (dropWhile is_space s) \<Longrightarrow>
   split_fence s = Some (takeWhile is_space s, drop 3 (dropWhile is_space s))"
proof (induction s)
  case Nil
  then show ?case by (simp add: FENCE_def)
next
  case (Cons c cs)
  show ?case
  proof (cases "is_space c")
    case True
    then have "\<not> prefix FENCE (c # cs)"
      using backtick_not_space prefix_FENCE_Cons by blast
    then show ?thesis using True Cons by simp
  next
    case False
    then show ?thesis using Cons.prems by simp
  qed
qed

lemma prefix_FENCE_drop: "prefix FENCE s \<Longrightarrow> s = FENCE @ drop 3 s"
  by (auto simp: prefix_def FENCE_def)

lemma split_fence_Some: "split_fence s = Some (a, r) \<Longrightarrow> s = a @ FENCE @ r"
proof (induction s arbitrary: a r)
  case Nil
  then show ?case by simp
next
  case (Cons c cs)
  show ?case
  proof (cases "prefix FENCE (c # cs)")
    case True
    then have "a = []" "r = drop 3 (c # cs)" using Cons.prems by simp_all
    then show ?thesis using prefix_FENCE_drop [OF True] by simp
  next
    case False
    then show ?thesis using Cons by auto
  qed
qed

lemma py_rstrip_spaces: "list_all is_space s \<Longrightarrow> py_rstrip s = []"
  by (simp add: py_rstrip_def list_all_iff)

lemma py_rstrip_Cons:
  "py_rstrip (c # s) = (if is_space c \<and> list_all is_space s then [] else c # py_rstrip s)"
proof (cases "list_all is_space s")
  case True
  then have "\<forall>x\<in>set (rev s). is_space x" by (simp add: list_all_iff)
  then have "dropWhile is_space (rev s @ [c]) = dropWhile is_space [c]"
    by (simp add: dropWhile_append)
  moreover have "py_rstrip s = []" using True by (rule py_rstrip_spaces)
  ultimately show ?thesis using True by (simp add: py_rstrip_def)
next
  case False
  then have "\<not> (\<forall>x\<in>set (rev s). is_space x)" by (simp add: list_all_iff)
  then have "dropWhile is_space (rev s @ [c]) = dropWhile is_space (rev s) @ [c]"
    by (simp add: dropWhile_append)
  then show ?thesis using False by (simp add: py_rstrip_def)
qed

lemma m_lazy_eq:
  "m_lazy s = (case split_fence s of None \<Rightarrow> None
               | Some (body, rest) \<Rightarrow> Some (py_rstrip body, rest))"
proof (induction s)
  case Nil
  show ?case by (simp add: m_fence_Nil)
next
  case (Cons c cs)
  show ?case
  proof (cases "m_close (c # cs)")
    case (Some r)
    then have pf: "prefix FENCE (dropWhile is_space (c # cs))"
      and r: "r = drop 3 (dropWhile is_space (c # cs))"
      by (auto simp only: m_close_eq m_fence_def split: if_splits)
    have "m_lazy (c # cs) = Some ([], r)" using Some by simp
    moreover have "split_fence (c # cs) = Some (takeWhile is_space (c # cs), r)"
      using split_fence_spaces [OF pf] r by simp
    moreover have "py_rstrip (takeWhile is_space (c # cs)) = []"
      by (rule py_rstrip_spaces) (auto simp: list_all_iff dest: set_takeWhileD)
    ultimately show ?thesis by simp
  next
    case None
    then have npf: "\<not> prefix FENCE (dropWhile is_space (c # cs))"
      by (auto simp only: m_close_eq m_fence_def split: if_splits)
    have np: "\<not> prefix FENCE (c # cs)"
    proof
      assume p: "prefix FENCE (c # cs)"
      then have "\<not> is_space c" using backtick_not_space prefix_FENCE_Cons by blast
      then show False using p npf by simp
    qed
    show ?thesis
    proof (cases "split_fence cs")
      case N2: None
      then show ?thesis using None np Cons by simp
    next
      case (Some p)
      obtain body rest where p: "p = (body, rest)" by (cases p)
      have cs: "cs = body @ FENCE @ rest" using Some p split_fence_Some by blast
      have "\<not> (is_space c \<and> list_all is_space body)"
      proof
        assume a: "is_space c \<and> list_all is_space body"
        then have "dropWhile is_space (c # cs) = FENCE @ rest"
          using a cs backtick_not_space
          by (simp add: list_all_iff dropWhile_append FENCE_def)
        then show False using npf by simp
      qed
      then show ?thesis using None np Cons Some p by (simp add: py_rstrip_Cons)
    qed
  qed
qed

lemma split_fence_body: "split_fence (c # cs) = Some (body, rest) \<Longrightarrow> body = [] \<or> hd body = c"
  by (auto split: if_splits)

lemma m_ws_eq:
  "m_ws s = (case split_fence s of None \<Rightarrow> None
             | Some (body, rest) \<Rightarrow> Some (py_strip body, rest))"
proof (induction s)
  case Nil
  show ?case by (simp add: m_fence_Nil)
next
  case (Cons c cs)
  show ?case
  proof (cases "is_space c")
    case True
    then have np: "\<not> prefix FENCE (c # cs)"
      using backtick_not_space prefix_FENCE_Cons by blast
    show ?thesis
    proof (cases "split_fence cs")
      case None
      then have "m_ws cs = None" using Cons by simp
      then have "m_ws (c # cs) = m_lazy (c # cs)" using True by simp
      then show ?thesis using None np by (simp only: m_lazy_eq) simp
    next
      case (Some p)
      obtain body rest where p: "p = (body, rest)" by (cases p)
      have "m_ws cs = Some (py_strip body, rest)" using Cons Some p by simp
      then have "m_ws (c # cs) = Some (py_strip body, rest)" using True by simp
      moreover have "py_strip (c # body) = py_strip body"
        using True by (simp add: py_strip_def)
      ultimately show ?thesis using Some p np by simp
    qed
  next
    case False
    then have m: "m_ws (c # cs) = m_lazy (c # cs)" by simp
    show ?thesis
    proof (cases "split_fence (c # cs)")
      case None
      then show ?thesis using m by (simp only: m_lazy_eq) simp
    next
      case (Some p)
      obtain body rest where p: "p = (body, rest)" by (cases p)
      have "body = [] \<or> hd body = c" using Some p split_fence_body by blast
      then have "dropWhile is_space body = body" using False by (cases body) auto
      then have "py_strip body = py_rstrip body" by (simp add: py_strip_def)
      then show ?thesis using m Some p by (simp only: m_lazy_eq) simp
    qed
  qed
qed

lemma split_fence_python:
  "split_fence (''python'' @ r) = map_option (\<lambda>(a, b). (''python'' @ a, b)) (split_fence r)"
  by (cases "split_fence r") (auto simp: FENCE_def)

lemma m_pattern_eq:
  "m_pattern s =
     (if prefix FENCE s then
        (case split_fence (drop_python (drop 3 s)) of None \<Rightarrow> None
         | Some (body, rest) \<Rightarrow> Some (py_strip body, rest))
      else None)"
proof (cases "prefix FENCE s \<and> prefix ''python'' (drop 3 s)")
  case True
  then obtain r where r: "drop 3 s = ''python'' @ r" by (auto simp: prefix_def)
  have "split_fence r = None \<Longrightarrow> split_fence (''python'' @ r) = None"
    by (simp only: split_fence_python) simp
  then show ?thesis using True r
    by (auto simp add: m_pattern_def m_ws_eq drop_python_def simp del: split_fence.simps split: option.splits)
next
  case False
  then show ?thesis by (auto simp: m_pattern_def m_ws_eq drop_python_def)
qed

lemma split_fence_drop_python: "split_fence (drop_python r) = None \<longleftrightarrow> split_fence r = None"
proof (cases "prefix ''python'' r")
  case True
  then obtain r' where r: "r = ''python'' @ r'" by (auto simp: prefix_def)
  have "drop_python r = r'" using r by (simp add: drop_python_def)
  moreover have "split_fence r = None \<longleftrightarrow> split_fence r' = None"
    by (simp only: r split_fence_python) simp
  ultimately show ?thesis by simp
next
  case False
  then show ?thesis by (simp add: drop_python_def)
qed

lemma split_fence_None_iff: "split_fence s = None \<longleftrightarrow> \<not> sublist FENCE s"
proof (induction s)
  case Nil
  show ?case by (simp add: FENCE_def)
next
  case (Cons c cs)
  then show ?case by (simp add: sublist_Cons_right)
qed

lemma fenced_blocks_Nil:
  assumes "\<And>a r. split_fence s = Some (a, r) \<Longrightarrow> split_fence r = None"
  shows "fenced_blocks s = []"
proof (cases "split_fence s")
  case None
  then show ?thesis by (simp add: fenced_blocks.simps)
next
  case (Some p)
  obtain a r where p: "p = (a, r)" by (cases p)
  have "split_fence (drop_python r) = None" using assms Some p by (simp add: split_fence_drop_python)
  then show ?thesis using Some p by (simp add: fenced_blocks.simps)
qed

lemma fenced_blocks_skip:
  "\<not> prefix FENCE (c # cs) \<Longrightarrow> fenced_blocks (c # cs) = fenced_blocks cs"
  by (cases "split_fence cs") (auto simp: fenced_blocks.simps [of "c # cs"] fenced_blocks.simps [of cs])

lemma fenced_blocks_open:
  "prefix FENCE s \<Longrightarrow>
   fenced_blocks s =
     (case split_fence (drop_python (drop 3 s)) of None \<Rightarrow> []
      | Some (body, rest) \<Rightarrow> py_strip body # fenced_blocks rest)"
  by (cases s) (simp_all add: fenced_blocks.simps [of "_ # _"] FENCE_def)

lemma unclosed_tail:
  assumes pf: "prefix FENCE (c # cs)" and none: "split_fence (drop 3 (c # cs)) = None"
  shows "fenced_blocks cs = []"
proof (rule fenced_blocks_Nil)
  fix a r assume sf: "split_fence cs = Some (a, r)"
  let ?r0 = "drop 3 (c # cs)"
  have cs: "cs = a @ FENCE @ r" using sf by (rule split_fence_Some)
  have r0: "c # cs = FENCE @ ?r0" using pf by (rule prefix_FENCE_drop)
  have "suffix r cs" using cs by (metis append.assoc suffixI)
  moreover have "suffix ?r0 cs" by (simp add: suffix_drop)
  moreover have "length r \<le> length ?r0" using cs by (simp add: FENCE_def)
  ultimately have "suffix r ?r0" by (rule suffix_length_suffix)
  then have "sublist r ?r0" by (rule suffix_imp_sublist)
  show "split_fence r = None"
  proof (rule ccontr)
    assume "split_fence r \<noteq> None"
    then have "sublist FENCE r" by (simp add: split_fence_None_iff)
    with \<open>sublist r ?r0\<close> have "sublist FENCE ?r0"
      by (meson sublist_order.order_trans)
    then show False using none by (simp add: split_fence_None_iff)
  qed
qed

lemma findall_fenced_blocks: "findall s = fenced_blocks s"
proof (induction s rule: findall.induct)
  case 1
  show ?case by (simp add: fenced_blocks.simps)
next
  case (2 c cs)
  show ?case
  proof (cases "prefix FENCE (c # cs)")
    case False
    then have "m_pattern (c # cs) = None" by (simp add: m_pattern_eq)
    then show ?thesis using 2 False by (simp add: fenced_blocks_skip)
  next
    case True
    show ?thesis
    proof (cases "split_fence (drop_python (drop 3 (c # cs)))")
      case None
      then have m: "m_pattern (c # cs) = None" using True by (simp only: m_pattern_eq) simp
      have "split_fence (drop 3 (c # cs)) = None" using None by (simp only: split_fence_drop_python)
      then have "fenced_blocks cs = []" using True unclosed_tail by blast
      moreover have "fenced_blocks (c # cs) = []"
        using True None by (simp only: fenced_blocks_open) simp
      ultimately show ?thesis using m 2 by simp
    next
      case (Some p)
      obtain body rest where p: "p = (body, rest)" by (cases p)
      have m: "m_pattern (c # cs) = Some (py_strip body, rest)"
        using True Some p by (simp only: m_pattern_eq) simp
      have "fenced_blocks (c # cs) = py_strip body # fenced_blocks rest"
        using True Some p by (simp only: fenced_blocks_open) simp
      then show ?thesis using m 2 by simp
    qed
  qed
qed

text \<open>
  The contents of a block as the specification words them, for the text \<open>body\<close> between
  the two fences of a block: a language tag is a word directly behind the opening fence
  that ends its line, whatever the language; the contents are what follows the tag, without
  the whitespace around it.  This is the reading the extractor is compared with; it is not
  taken from the source.
\<close>

definition language_tag :: "string \<Rightarrow> string" where
  "language_tag body =
     (let word = takeWhile (\<lambda>c. \<not> is_space c) body in
      if word \<noteq> [] \<and> prefix (word @ [CHR 0x0A]) body then word else [])"

definition worded_contents :: "string \<Rightarrow> string" where
  "worded_contents body = py_strip (drop (length (language_tag body)) body)"





text \<open>
  The Fail and Incomplete branches of the main loop stash the code found in the judge's reply:
  \<^verbatim>\<open>revised_code = extract_code_blocks(response_judge)\<close>, and
  \<^verbatim>\<open>pending_fail_code = revised_code\<close> when \<^verbatim>\<open>revised_code.strip()\<close> is not empty.
\<close>

definition stash_revised_code :: "string \<Rightarrow> string option \<Rightarrow> string option" where
  "stash_revised_code response_judge pending_fail_code =
     (let revised_code = extract_code_blocks response_judge in
      if py_strip revised_code \<noteq> [] then Some revised_code else pending_fail_code)"


lemma extract_code_blocks_fenced:
  "extract_code_blocks response =
     (if fenced_blocks response = [] then [] else last (fenced_blocks response))"
  by (simp add: extract_code_blocks_def findall_fenced_blocks)

lemma extract_code_blocks_no_fence:
  "\<not> sublist FENCE response \<Longrightarrow> extract_code_blocks response = []"
proof -
  assume "\<not> sublist FENCE response"
  then have "split_fence response = None" by (simp add: split_fence_None_iff)
  then have "fenced_blocks response = []" by (simp add: fenced_blocks.simps [of response])
  then show ?thesis by (simp add: extract_code_blocks_fenced)
qed

lemma split_fence_first:
  "split_fence s = Some (a0, r) \<Longrightarrow> s = a @ FENCE @ x \<Longrightarrow> length a0 \<le> length a"
proof (induction s arbitrary: a0 r a)
  case Nil
  then show ?case by simp
next
  case (Cons c cs)
  show ?case
  proof (cases "prefix FENCE (c # cs)")
    case True
    then show ?thesis using Cons.prems(1) by simp
  next
    case False
    then obtain a1 where a1: "split_fence cs = Some (a1, r)" "a0 = c # a1"
      using Cons.prems(1) by auto
    have "a \<noteq> []" using False Cons.prems(2) by auto
    then obtain a' where a': "a = c # a'" "cs = a' @ FENCE @ x"
      using Cons.prems(2) by (cases a) auto
    have "length a1 \<le> length a'" using Cons.IH [OF a1(1) a'(2)] .
    then show ?thesis using a1(2) a'(1) by simp
  qed
qed

lemma fenced_blocks_empty_iff:
  "(fenced_blocks s = []) = (\<not> (\<exists>a b c. s = a @ FENCE @ b @ FENCE @ c))"
proof
  assume e: "fenced_blocks s = []"
  show "\<not> (\<exists>a b c. s = a @ FENCE @ b @ FENCE @ c)"
  proof
    assume "\<exists>a b c. s = a @ FENCE @ b @ FENCE @ c"
    then obtain a b c where s: "s = a @ FENCE @ b @ FENCE @ c" by blast
    then have "sublist FENCE s" by (auto simp: sublist_def)
    then obtain a0 r where sf: "split_fence s = Some (a0, r)"
      using split_fence_None_iff [of s] by (cases "split_fence s") auto
    have s0: "s = a0 @ FENCE @ r" using sf by (rule split_fence_Some)
    have le: "length a0 \<le> length a" using sf s by (rule split_fence_first)
    have "r = drop (length a0 + 3) s" using s0 by (simp add: FENCE_def)
    also have "\<dots> = drop (length a0 + 3) ((a @ FENCE @ b) @ FENCE @ c)"
      by (simp add: s)
    also have "\<dots> = drop (length a0 + 3) (a @ FENCE @ b)
                     @ drop (length a0 + 3 - length (a @ FENCE @ b)) (FENCE @ c)"
      by (rule drop_append)
    also have "length a0 + 3 - length (a @ FENCE @ b) = 0"
      using le by (simp add: FENCE_def)
    also have "drop 0 (FENCE @ c) = FENCE @ c" by simp
    finally have "sublist FENCE r" by (metis sublist_appendI)
    then have "split_fence r \<noteq> None"
      by (simp add: split_fence_None_iff)
    then have "split_fence (drop_python r) \<noteq> None"
      by (simp add: split_fence_drop_python)
    then show False using e sf by (auto simp: fenced_blocks.simps [of s])
  qed
next
  assume n: "\<not> (\<exists>a b c. s = a @ FENCE @ b @ FENCE @ c)"
  show "fenced_blocks s = []"
  proof (rule fenced_blocks_Nil)
    fix a r assume sf: "split_fence s = Some (a, r)"
    have s0: "s = a @ FENCE @ r" using sf by (rule split_fence_Some)
    show "split_fence r = None"
    proof (rule ccontr)
      assume "split_fence r \<noteq> None"
      then obtain b c where "split_fence r = Some (b, c)" by auto
      then have "r = b @ FENCE @ c" by (rule split_fence_Some)
      then have "s = a @ FENCE @ b @ FENCE @ c" using s0 by simp
      then show False using n by blast
    qed
  qed
qed

text \<open>
  C9 as stated fails.  A block tagged \<^verbatim>\<open>bash\<close> comes back with its tag as part of the code,
  where the contents of the block are \<^verbatim>\<open>ls\<close>; the block \<^verbatim>\<open>```pythonic = 1```\<close> comes back
  as \<^verbatim>\<open>ic = 1\<close>, where its contents are \<^verbatim>\<open>pythonic = 1\<close>; and a text with one fence,
  \<^verbatim>\<open>```x = 1\<close>, gives the empty string although a fence exists.
\<close>

theorem extract_code_blocks_counterexample:
  "extract_code_blocks (''```bash'' @ [CHR 0x0A] @ ''ls'' @ [CHR 0x0A] @ ''```'')
     = ''bash'' @ [CHR 0x0A] @ ''ls''
   \<and> worded_contents (''bash'' @ [CHR 0x0A] @ ''ls'' @ [CHR 0x0A]) = ''ls''
   \<and> extract_code_blocks ''```pythonic = 1```'' = ''ic = 1''
   \<and> worded_contents ''pythonic = 1'' = ''pythonic = 1''
   \<and> str_contains FENCE ''```x = 1''
   \<and> extract_code_blocks ''```x = 1'' = []"
proof -
  have "extract_code_blocks (''```bash'' @ [CHR 0x0A] @ ''ls'' @ [CHR 0x0A] @ ''```'')
          = ''bash'' @ [CHR 0x0A] @ ''ls''"
    by (simp add: extract_code_blocks_def m_pattern_def FENCE_def m_fence_def is_space_def)
  moreover have "worded_contents (''bash'' @ [CHR 0x0A] @ ''ls'' @ [CHR 0x0A]) = ''ls''"
    by (simp add: worded_contents_def language_tag_def py_strip_def py_rstrip_def is_space_def)
  moreover have "extract_code_blocks ''```pythonic = 1```'' = ''ic = 1''"
    by (simp add: extract_code_blocks_def m_pattern_def FENCE_def m_fence_def is_space_def)
  moreover have "worded_contents ''pythonic = 1'' = ''pythonic = 1''"
    by (simp add: worded_contents_def language_tag_def py_strip_def py_rstrip_def is_space_def)
  moreover have "str_contains FENCE ''```x = 1''"
    by (simp add: str_contains_def FENCE_def)
  moreover have "extract_code_blocks ''```x = 1'' = []"
    by (simp add: extract_code_blocks_def m_pattern_def FENCE_def m_fence_def is_space_def)
  ultimately show ?thesis by blast
qed

text \<open>
  C9, amended.  For every text the groups that the pattern finds, from left to right, are
  the contents of its blocks in this sense: a block opens at a fence and closes at the next
  fence behind it (non-greedy, across lines), and its contents are the text between the
  two without the literal lower-case prefix \<^verbatim>\<open>python\<close> directly behind the opening fence
  and without the whitespace around the rest.  No other language tag is taken off, and the
  prefix is also taken off a longer word.  The extractor returns the contents of the last
  block; it returns the empty string when there is no block, which is exactly when the text
  does not hold two fences one behind the other, so also when it holds a single fence.
  \<^verbatim>\<open>extract("no fences here")\<close> is empty and \<^verbatim>\<open>extract("```a```text```b```")\<close> is \<^verbatim>\<open>b\<close>.
\<close>

theorem extract_code_blocks_last_block:
  "findall response = fenced_blocks response
   \<and> extract_code_blocks response
       = (if fenced_blocks response = [] then [] else last (fenced_blocks response))
   \<and> (fenced_blocks response = [])
       = (\<not> (\<exists>a b c. response = a @ FENCE @ b @ FENCE @ c))
   \<and> extract_code_blocks ''no fences here'' = []
   \<and> extract_code_blocks ''```a```text```b```'' = ''b''"
proof -
  have "extract_code_blocks ''no fences here'' = []"
    by (simp add: extract_code_blocks_def m_pattern_def FENCE_def)
  moreover have "extract_code_blocks ''```a```text```b```'' = ''b''"
    by (simp add: extract_code_blocks_def m_pattern_def FENCE_def m_fence_def is_space_def)
  moreover note fenced_blocks_empty_iff [of response]
  ultimately show ?thesis
    by (simp only: findall_fenced_blocks extract_code_blocks_fenced simp_thms)
qed

theorem extract_code_blocks_last_block_witness:
  "findall (''```python'' @ [CHR 0x0A] @ ''print(1)'' @ [CHR 0x0A] @ ''```'') = [''print(1)'']
   \<and> fenced_blocks (''```python'' @ [CHR 0x0A] @ ''print(1)'' @ [CHR 0x0A] @ ''```'')
       = [''print(1)'']
   \<and> extract_code_blocks (''```python'' @ [CHR 0x0A] @ ''print(1)'' @ [CHR 0x0A] @ ''```'')
       = ''print(1)''"
proof -
  let ?X = "''```python'' @ [CHR 0x0A] @ ''print(1)'' @ [CHR 0x0A] @ ''```''"
  note t = extract_code_blocks_last_block [of ?X]
  have f: "findall ?X = [''print(1)'']"
    by (simp add: m_pattern_def FENCE_def m_fence_def is_space_def)
  have fb: "fenced_blocks ?X = [''print(1)'']"
    using trans [OF sym [OF conjunct1 [OF t]] f] .
  have "extract_code_blocks ?X
          = (if fenced_blocks ?X = [] then [] else last (fenced_blocks ?X))"
    using conjunct1 [OF conjunct2 [OF t]] .
  then have e: "extract_code_blocks ?X = ''print(1)''"
    by (simp only: fb) simp
  from f fb e show ?thesis by blast
qed



section \<open>Verdict classification\<close>

text \<open>The two sentences by which the judge's reply is classified.\<close>

definition PASS_STR :: string where
  "PASS_STR = ''Project output fully satisfies project description, that is the final version and we can stop iterating''"

definition FAIL_STR :: string where
  "FAIL_STR = ''Project output does not fully satisfy project description, submitting revised script to re-evaluate output''"

text \<open>\<^verbatim>\<open>str.lower()\<close> on ASCII text.\<close>

definition lower_char :: "char \<Rightarrow> char" where
  "lower_char c =
     (case map_of (zip ''ABCDEFGHIJKLMNOPQRSTUVWXYZ'' ''abcdefghijklmnopqrstuvwxyz'') c of
        None \<Rightarrow> c
      | Some l \<Rightarrow> l)"

definition py_lower :: "string \<Rightarrow> string" where
  "py_lower s = map lower_char s"

text \<open>
  Lines 397 to 447 of \<^verbatim>\<open>main\<close>: the tests \<^verbatim>\<open>PASS_STR.lower() in lower_resp\<close> and
  \<^verbatim>\<open>FAIL_STR.lower() in lower_resp\<close>, and the branch taken
  (\<^verbatim>\<open>gpt_pass_fail_status\<close>).
\<close>

datatype verdict = Pass | Fail | Incomplete

definition has_pass :: "string \<Rightarrow> bool" where
  "has_pass response_judge = str_contains (py_lower PASS_STR) (py_lower response_judge)"

definition has_fail :: "string \<Rightarrow> bool" where
  "has_fail response_judge = str_contains (py_lower FAIL_STR) (py_lower response_judge)"

definition classify_reply :: "string \<Rightarrow> verdict" where
  "classify_reply response_judge =
     (if has_pass response_judge then Pass
      else if has_fail response_judge then Fail
      else Incomplete)"

text \<open>
  The other order, which the source does not have: the FAIL sentence is looked for first.
  It is what the order of the tests is compared with.
\<close>

definition classify_reply_fail_first :: "string \<Rightarrow> verdict" where
  "classify_reply_fail_first response_judge =
     (if has_fail response_judge then Fail
      else if has_pass response_judge then Pass
      else Incomplete)"

text \<open>A reply that holds both sentences.\<close>

definition both_sentinels :: string where
  "both_sentinels = PASS_STR @ '' '' @ FAIL_STR"

lemma py_lower_append: "py_lower (a @ b) = py_lower a @ py_lower b"
  by (simp add: py_lower_def)

lemma lower_PASS:
  "py_lower PASS_STR = ''project output fully satisfies project description, that is the final version and we can stop iterating''"
  by (simp add: py_lower_def PASS_STR_def lower_char_def)

lemma lower_FAIL:
  "py_lower FAIL_STR = ''project output does not fully satisfy project description, submitting revised script to re-evaluate output''"
  by (simp add: py_lower_def FAIL_STR_def lower_char_def)

lemma has_pass_PASS: "has_pass PASS_STR"
  by (simp add: has_pass_def str_contains_def)

lemma has_fail_FAIL: "has_fail FAIL_STR"
  by (simp add: has_fail_def str_contains_def)

lemma not_has_pass_FAIL: "\<not> has_pass FAIL_STR"
proof
  assume "has_pass FAIL_STR"
  then have "set (py_lower PASS_STR) \<subseteq> set (py_lower FAIL_STR)"
    unfolding has_pass_def str_contains_def by (rule set_mono_sublist)
  moreover have "CHR ''w'' \<in> set (py_lower PASS_STR)" by (simp add: lower_PASS)
  ultimately have "CHR ''w'' \<in> set (py_lower FAIL_STR)" by blast
  then show False by (simp add: lower_FAIL)
qed

lemma not_has_fail_PASS: "\<not> has_fail PASS_STR"
proof
  assume "has_fail PASS_STR"
  then have "set (py_lower FAIL_STR) \<subseteq> set (py_lower PASS_STR)"
    unfolding has_fail_def str_contains_def by (rule set_mono_sublist)
  moreover have "CHR ''m'' \<in> set (py_lower FAIL_STR)" by (simp add: lower_FAIL)
  ultimately have "CHR ''m'' \<in> set (py_lower PASS_STR)" by blast
  then show False by (simp add: lower_PASS)
qed

lemma has_both:
  "has_pass both_sentinels" "has_fail both_sentinels"
proof -
  have "py_lower both_sentinels = py_lower PASS_STR @ (py_lower '' '' @ py_lower FAIL_STR)"
    by (simp only: both_sentinels_def py_lower_append)
  then show "has_pass both_sentinels"
    by (simp only: has_pass_def str_contains_def sublist_append_rightI)
  have "py_lower both_sentinels = (py_lower PASS_STR @ py_lower '' '') @ py_lower FAIL_STR"
    by (simp only: both_sentinels_def py_lower_append append_assoc)
  then show "has_fail both_sentinels"
    by (simp only: has_fail_def str_contains_def sublist_append_leftI)
qed

text \<open>
  C5 as stated fails: a reply that holds both sentinel sentences (a model that repeats
  its instructions does) is Pass when the PASS sentinel is looked for first and Fail when
  the FAIL sentinel is; the two sentences are not mutually exclusive.
\<close>

theorem classify_reply_order_counterexample:
  "classify_reply both_sentinels = Pass
   \<and> classify_reply_fail_first both_sentinels = Fail
   \<and> has_pass both_sentinels \<and> has_fail both_sentinels"
  by (simp add: classify_reply_def classify_reply_fail_first_def has_both)

text \<open>
  C5, amended.  The loop looks for the PASS sentinel first: the verdict is Pass when the
  lower-cased reply contains the lower-cased PASS sentence, else Fail when it contains the
  FAIL sentence, else Incomplete.  Looking for FAIL first gives the same verdict exactly for
  the replies that do not contain both sentences.
\<close>

theorem classify_reply_order:
  "classify_reply response_judge
     = (if has_pass response_judge then Pass
        else if has_fail response_judge then Fail else Incomplete)
   \<and> ((classify_reply response_judge = classify_reply_fail_first response_judge)
        = (\<not> (has_pass response_judge \<and> has_fail response_judge)))"
  by (simp add: classify_reply_def classify_reply_fail_first_def)

theorem classify_reply_order_witness:
  "classify_reply FAIL_STR = Fail \<and> classify_reply_fail_first FAIL_STR = Fail
   \<and> classify_reply PASS_STR = Pass \<and> classify_reply_fail_first PASS_STR = Pass"
  using classify_reply_order [of FAIL_STR] classify_reply_order [of PASS_STR]
  by (simp add: has_pass_PASS has_fail_FAIL not_has_pass_FAIL not_has_fail_PASS
      classify_reply_fail_first_def)

section \<open>The round budget of prune_history\<close>

text \<open>
  The exchange pairs of a transcript: a user message carrying a step marker, directly
  followed by an assistant message.
\<close>

fun exchange_pairs :: "msg list \<Rightarrow> (msg \<times> msg) list" where
  "exchange_pairs (u # a # ms) =
     (if role u = ''user'' \<and> is_step u \<and> is_assistant a then (u, a) # exchange_pairs ms
      else exchange_pairs (a # ms))"
| "exchange_pairs ms = []"

text \<open>
  The window of the \<open>k\<close> most recent rounds: scanning from the newest message, the shortest
  stretch that holds \<open>k\<close> budget-taking messages (everything, when there are fewer).
\<close>

fun recent_window :: "nat \<Rightarrow> msg list \<Rightarrow> msg list" where
  "recent_window k [] = []"
| "recent_window k (m # ms) =
     (if k = 0 then [] else m # recent_window (if is_round m then k - 1 else k) ms)"

definition kept_in_window :: "msg \<Rightarrow> bool" where
  "kept_in_window m = (is_feedback m \<or> is_assistant m \<or> is_step m)"

text \<open>
  A user message of the Code Judgment step whose text also holds the feedback marker, and a
  transcript with two exchanges of that kind.
\<close>

definition judge_fb_msg :: msg where
  "judge_fb_msg = \<lparr>role = ''user'',
     content = ''We are in the Code Judgment Step. And here is the output: User Feedback: none''\<rparr>"

definition both_tags_transcript :: "msg list" where
  "both_tags_transcript = [sys_msg, task_msg, judge_fb_msg, reply_msg, judge_fb_msg, reply_msg]"

lemma retained_exhausted: "n \<le> c \<Longrightarrow> retained n c ms = filter is_feedback ms"
  by (induction ms) simp_all

lemma retained_rounds:
  "filter is_round (retained n c ms) = take (nat (n - c)) (filter is_round ms)"
proof (induction ms arbitrary: c)
  case Nil
  show ?case by simp
next
  case (Cons m ms)
  show ?case
  proof (cases "c < n")
    case True
    then have "nat (n - c) = Suc (nat (n - (c + 1)))" by simp
    then show ?thesis using True Cons [of c] Cons [of "c + 1"]
      by (simp add: is_round_def)
  next
    case False
    then have "nat (n - c) = 0" by simp
    then show ?thesis using False by (simp add: retained_exhausted is_round_def)
  qed
qed

lemma retained_window:
  "retained n c ms =
     filter kept_in_window (recent_window (nat (n - c)) ms)
     @ filter is_feedback (drop (length (recent_window (nat (n - c)) ms)) ms)"
proof (induction ms arbitrary: c)
  case Nil
  show ?case by simp
next
  case (Cons m ms)
  show ?case
  proof (cases "c < n")
    case False
    then have "nat (n - c) = 0" by simp
    then show ?thesis using False by (simp add: retained_exhausted)
  next
    case True
    then have k: "nat (n - c) \<noteq> 0" "nat (n - c) - 1 = nat (n - (c + 1))" by simp_all
    show ?thesis
    proof (cases "is_round m")
      case True
      then show ?thesis using \<open>c < n\<close> k Cons [of "c + 1"]
        by (simp add: is_round_def kept_in_window_def)
    next
      case False
      then show ?thesis using \<open>c < n\<close> k Cons [of c]
        by (auto simp add: is_round_def kept_in_window_def)
    qed
  qed
qed

lemma recent_window_prefix: "recent_window k ms = take (length (recent_window k ms)) ms"
  by (induction ms arbitrary: k) simp_all

lemma recent_window_rounds: "length (filter is_round (recent_window k ms)) \<le> k"
proof (induction ms arbitrary: k)
  case Nil
  show ?case by simp
next
  case (Cons m ms)
  show ?case
  proof (cases "k = 0")
    case True
    then show ?thesis by simp
  next
    case False
    then show ?thesis using Cons [of k] Cons [of "k - 1"] by auto
  qed
qed

lemma exchange_pairs_rounds:
  "length (filter (\<lambda>(u, a). \<not> is_feedback u) (exchange_pairs ms)) \<le> length (filter is_round ms)"
proof (induction ms rule: exchange_pairs.induct)
  case (1 u a ms)
  then show ?case by (auto simp: is_round_def is_assistant_def)
qed simp_all

lemma prune_history_tail:
  "drop 2 (prune_history T n) = rev (retained n 0 (rev (drop 2 T)))"
proof (cases "length T \<le> 2")
  case True
  then show ?thesis by (simp add: prune_history_alt)
next
  case False
  then have "length (take 2 T) = 2" by simp
  then show ?thesis using False by (simp add: prune_history_alt)
qed

lemma judge_fb_msg_tags:
  "is_feedback judge_fb_msg" "is_step judge_fb_msg" "role judge_fb_msg = ''user''"
  by (simp_all add: is_feedback_def is_step_def judge_fb_msg_def str_contains_def
      FEEDBACK_MARK_def GEN_MARK_def JUDGE_MARK_def sublist_code prefix_code)

text \<open>
  C6 as stated fails: a user message of the Code Judgment step whose text also holds the
  feedback marker (the judged program printed it) is kept as feedback and takes no budget.
  With budget 1 both exchange pairs of this transcript survive.
\<close>

theorem prune_history_pairs_counterexample:
  "prune_history both_tags_transcript 1 = both_tags_transcript
   \<and> exchange_pairs (drop 2 (prune_history both_tags_transcript 1))
       = [(judge_fb_msg, reply_msg), (judge_fb_msg, reply_msg)]
   \<and> \<not> int (length (exchange_pairs (drop 2 (prune_history both_tags_transcript 1)))) \<le> 1"
proof -
  have "prune_history both_tags_transcript 1 = both_tags_transcript"
    by (simp add: prune_history_def both_tags_transcript_def judge_fb_msg_tags msg_examples)
  moreover have "exchange_pairs (drop 2 both_tags_transcript)
                   = [(judge_fb_msg, reply_msg), (judge_fb_msg, reply_msg)]"
    by (simp add: both_tags_transcript_def judge_fb_msg_tags msg_examples)
  ultimately show ?thesis by simp
qed

text \<open>
  C6, amended.  Among the messages after the two pinned ones, the budget counts the
  messages that carry a step marker and are neither feedback-tagged user messages nor
  assistant messages.  For every transcript and budget the pruned transcript keeps at most
  \<open>max n 0\<close> of them, namely the most recent ones; so it holds at most that many exchange
  pairs whose user message is not feedback-tagged.  Inside the window of these most recent
  rounds the feedback, assistant and step-tagged messages are kept, so a kept round keeps
  the assistant reply that follows it; before the window only feedback is kept.
\<close>

theorem prune_history_round_budget:
  "length (filter is_round (drop 2 (prune_history T n))) \<le> nat n
   \<and> filter is_round (drop 2 (prune_history T n))
       = (let rs = filter is_round (drop 2 T) in drop (length rs - nat n) rs)
   \<and> length (filter (\<lambda>(u, a). \<not> is_feedback u) (exchange_pairs (drop 2 (prune_history T n))))
       \<le> nat n
   \<and> drop 2 (prune_history T n)
       = (let R = drop 2 T; w = length (recent_window (nat n) (rev R))
          in filter is_feedback (take (length R - w) R)
             @ filter kept_in_window (drop (length R - w) R))"
proof -
  define R where "R = drop 2 T"
  define rs where "rs = filter is_round R"
  define w where "w = length (recent_window (nat n) (rev R))"
  have tail: "drop 2 (prune_history T n) = rev (retained n 0 (rev R))"
    by (simp add: prune_history_tail R_def)
  have "filter is_round (rev (retained n 0 (rev R))) = rev (take (nat n) (rev rs))"
    by (simp add: rev_filter [symmetric] retained_rounds rs_def)
  also have "\<dots> = drop (length rs - nat n) rs"
    by (simp add: rev_take)
  finally have two: "filter is_round (drop 2 (prune_history T n)) = drop (length rs - nat n) rs"
    by (simp only: tail)
  then have one: "length (filter is_round (drop 2 (prune_history T n))) \<le> nat n"
    by simp
  have three: "length (filter (\<lambda>(u, a). \<not> is_feedback u)
                 (exchange_pairs (drop 2 (prune_history T n)))) \<le> nat n"
    using exchange_pairs_rounds [of "drop 2 (prune_history T n)"] one by linarith
  have W: "recent_window (nat n) (rev R) = take w (rev R)"
    unfolding w_def by (rule recent_window_prefix)
  have rw: "retained n 0 (rev R)
          = filter kept_in_window (recent_window (nat n) (rev R))
            @ filter is_feedback (drop (length (recent_window (nat n) (rev R))) (rev R))"
    using retained_window [of n 0 "rev R"] by simp
  have fw: "filter kept_in_window (recent_window (nat n) (rev R))
          = filter kept_in_window (take w (rev R))"
    using W by (rule arg_cong)
  have "retained n 0 (rev R)
          = filter kept_in_window (take w (rev R)) @ filter is_feedback (drop w (rev R))"
    by (simp only: rw [folded w_def] fw)
  then have "rev (retained n 0 (rev R))
          = filter is_feedback (rev (drop w (rev R))) @ filter kept_in_window (rev (take w (rev R)))"
    by (simp add: rev_filter)
  then have four: "drop 2 (prune_history T n)
          = filter is_feedback (take (length R - w) R) @ filter kept_in_window (drop (length R - w) R)"
    by (simp add: tail rev_take rev_drop)
  from one two three four show ?thesis
    unfolding Let_def R_def rs_def w_def by blast
qed

theorem prune_history_round_budget_witness:
  "filter is_round (drop 2 (prune_history [sys_msg, task_msg, gen_msg, reply_msg, gen_msg, reply_msg] 1))
     = [gen_msg]
   \<and> length (filter is_round (drop 2 [sys_msg, task_msg, gen_msg, reply_msg, gen_msg, reply_msg])) = 2"
  using prune_history_round_budget [of "[sys_msg, task_msg, gen_msg, reply_msg, gen_msg, reply_msg]" 1]
  by (simp add: is_round_def kept_in_window_def msg_examples)

section \<open>The main loop\<close>

text \<open>
  One pass of the \<^verbatim>\<open>while not project_complete\<close> loop of \<^verbatim>\<open>main\<close>.  What the loop reads
  from outside in one pass is a record: the text \<^verbatim>\<open>openai_chat_completion\<close> returns for the
  generation call and for the judgment call, the text \<^verbatim>\<open>run_code\<close> returns, and the line
  \<^verbatim>\<open>input\<close> returns.  A field is only looked at when the pass makes the call.  The files
  written by \<^verbatim>\<open>open(filename, "w")\<close> are a map from file name to content.  Logging and the
  timers do not influence the loop and are left out.
\<close>

definition MAX_CODE_HISTORY :: int where
  "MAX_CODE_HISTORY = 3"

definition MAX_FAIL_WO_FDBK :: int where
  "MAX_FAIL_WO_FDBK = 10"

definition NL :: string where
  "NL = [CHR 0x0A]"

record globals =
  script_name :: string
  timestamp :: string
  project_description :: string

record io =
  gen_reply :: string
  run_result :: string
  judge_reply :: string
  feedback_line :: string

record loop_state =
  conversation_history :: "msg list"
  feedback_round :: int
  code_iter :: int
  project_complete :: bool
  last_run_output :: string
  current_code :: string
  total_passes :: int
  total_fails :: int
  pending_fail_code :: "string option"
  fails_since_feedback :: int
  files :: "string \<rightharpoonup> string"

text \<open>\<^verbatim>\<open>str(n)\<close> for an integer, as the f-strings of the file names format it.\<close>

definition digit_char :: "nat \<Rightarrow> char" where
  "digit_char d = ''0123456789'' ! d"

function str_nat :: "nat \<Rightarrow> string" where
  "str_nat n = (if n < 10 then [digit_char n] else str_nat (n div 10) @ [digit_char (n mod 10)])"
  by pat_completeness auto
termination
  by (relation "measure id") auto

definition py_str_int :: "int \<Rightarrow> string" where
  "py_str_int i = (if i < 0 then CHR ''-'' # str_nat (nat (- i)) else str_nat (nat i))"

definition code_file_name :: "globals \<Rightarrow> int \<Rightarrow> int \<Rightarrow> string" where
  "code_file_name g feedback_iter code_iter' =
     script_name g @ ''_'' @ timestamp g @ ''_fdbk'' @ py_str_int feedback_iter
       @ ''_iter'' @ py_str_int code_iter' @ ''.py''"

definition output_file_name :: "globals \<Rightarrow> int \<Rightarrow> int \<Rightarrow> string" where
  "output_file_name g feedback_iter code_iter' =
     script_name g @ ''_'' @ timestamp g @ ''_fdbk'' @ py_str_int feedback_iter
       @ ''_iter'' @ py_str_int code_iter' @ ''.txt''"

definition save_code_permanently ::
    "globals \<Rightarrow> string \<Rightarrow> int \<Rightarrow> int \<Rightarrow> (string \<rightharpoonup> string) \<Rightarrow> (string \<rightharpoonup> string)" where
  "save_code_permanently g code_string feedback_iter code_iter' fs =
     fs(code_file_name g feedback_iter code_iter' \<mapsto> code_string)"

definition save_output_permanently ::
    "globals \<Rightarrow> string \<Rightarrow> int \<Rightarrow> int \<Rightarrow> (string \<rightharpoonup> string) \<Rightarrow> (string \<rightharpoonup> string)" where
  "save_output_permanently g output_string feedback_iter code_iter' fs =
     fs(output_file_name g feedback_iter code_iter' \<mapsto> output_string)"

definition request_user_feedback :: "string \<Rightarrow> string option" where
  "request_user_feedback user_feedback =
     (if py_strip user_feedback \<noteq> [] then Some user_feedback else None)"

text \<open>
  \<^verbatim>\<open>if user_feedback: ... else: ...\<close> for a value that is a string or \<^verbatim>\<open>None\<close>: the first
  branch is taken for a string that is not empty.
\<close>

definition if_feedback :: "string option \<Rightarrow> (string \<Rightarrow> 'a) \<Rightarrow> 'a \<Rightarrow> 'a" where
  "if_feedback v yes no = (case v of None \<Rightarrow> no | Some t \<Rightarrow> if t \<noteq> [] then yes t else no)"

definition handle_user_feedback :: "string \<Rightarrow> msg list \<Rightarrow> int \<Rightarrow> msg list \<times> int \<times> int" where
  "handle_user_feedback user_feedback history feedback_round' =
     (let feedback_msg =
            ''User Feedback:'' @ NL @ user_feedback @ NL
            @ ''Please revise or improve the code accordingly, returning only the code in triple backticks, no pass/fail statements.''
      in (history @ [\<lparr>role = ''user'', content = feedback_msg\<rparr>], feedback_round' + 1, 0))"

definition apply_feedback :: "string \<Rightarrow> loop_state \<Rightarrow> loop_state" where
  "apply_feedback user_feedback s =
     (case handle_user_feedback user_feedback (conversation_history s) (feedback_round s) of
        (history, feedback_round', code_iter') \<Rightarrow>
          s\<lparr>conversation_history := history, feedback_round := feedback_round',
            code_iter := code_iter'\<rparr>)"

definition user_msg_gen :: "globals \<Rightarrow> string" where
  "user_msg_gen g =
     ''We are in the Code Generation Step.'' @ NL
     @ ''Project description:'' @ NL @ project_description g @ NL @ NL
     @ ''Please return full valid Python code (in triple backticks) with no pass/fail statements.'' @ NL"

definition user_msg_judge :: "globals \<Rightarrow> string \<Rightarrow> string \<Rightarrow> string" where
  "user_msg_judge g code output =
     ''We are in the Code Judgment Step.'' @ NL
     @ ''Project description:'' @ NL @ project_description g @ NL @ NL
     @ ''Here is the code:'' @ NL
     @ ''```python'' @ NL @ code @ NL @ ''```'' @ NL @ NL
     @ ''And here is the output:'' @ NL @ output @ NL @ NL
     @ ''If the output satisfies the project, reply exactly:'' @ NL @ PASS_STR @ NL @ NL
     @ ''Otherwise reply exactly:'' @ NL @ FAIL_STR @ NL @ NL
     @ ''Followed by a failure analysis, and then a final updated version.''"

text \<open>Lines 320 to 353: reuse the pending code, or ask for new code and save it.\<close>

definition generation_step :: "globals \<Rightarrow> io \<Rightarrow> loop_state \<Rightarrow> string \<times> loop_state" where
  "generation_step g i s =
     (case pending_fail_code s of
        Some code \<Rightarrow>
          (code, s\<lparr>code_iter := code_iter s + 1, pending_fail_code := None\<rparr>)
      | None \<Rightarrow>
          let s1 = s\<lparr>code_iter := code_iter s + 1\<rparr>;
              history1 = prune_history
                (conversation_history s1 @ [\<lparr>role = ''user'', content = user_msg_gen g\<rparr>])
                MAX_CODE_HISTORY;
              response_gen = gen_reply i;
              history2 = history1 @ [\<lparr>role = ''assistant'', content = response_gen\<rparr>];
              new_code = extract_code_blocks response_gen
          in if py_strip new_code = [] then
               ([], s1\<lparr>conversation_history := history2,
                       last_run_output := ''No code was returned.''\<rparr>)
             else
               (new_code,
                s1\<lparr>conversation_history := history2,
                   files := save_code_permanently g new_code (feedback_round s1) (code_iter s1)
                              (files s1)\<rparr>))"

text \<open>Lines 356 to 371: run the code and save its output.\<close>

definition run_step :: "globals \<Rightarrow> io \<Rightarrow> string \<times> loop_state \<Rightarrow> loop_state" where
  "run_step g i cs =
     (case cs of (new_code, s) \<Rightarrow>
        if py_strip new_code \<noteq> [] then
          s\<lparr>current_code := new_code, last_run_output := run_result i,
            files := save_output_permanently g (run_result i) (feedback_round s) (code_iter s)
                       (files s)\<rparr>
        else s\<lparr>current_code := [], last_run_output := ''No code was run.''\<rparr>)"

text \<open>Lines 374 to 395: the judgment request and the reply.\<close>

definition judge_step :: "globals \<Rightarrow> io \<Rightarrow> loop_state \<Rightarrow> loop_state" where
  "judge_step g i s =
     (let history1 = prune_history
            (conversation_history s
             @ [\<lparr>role = ''user'',
                 content = user_msg_judge g (current_code s) (last_run_output s)\<rparr>])
            MAX_CODE_HISTORY;
          history2 = history1 @ [\<lparr>role = ''assistant'', content = judge_reply i\<rparr>]
      in s\<lparr>conversation_history := history2\<rparr>)"

text \<open>Lines 397 to 457: the three branches on the judge's reply.\<close>

definition verdict_step :: "io \<Rightarrow> loop_state \<Rightarrow> loop_state" where
  "verdict_step i s =
     (let response_judge = judge_reply i in
      if has_pass response_judge then
        let s1 = s\<lparr>total_passes := total_passes s + 1, fails_since_feedback := 0\<rparr>;
            user_feedback = request_user_feedback (feedback_line i)
        in if_feedback user_feedback (\<lambda>t. apply_feedback t s1) (s1\<lparr>project_complete := True\<rparr>)
      else if has_fail response_judge then
        let s1 = s\<lparr>total_fails := total_fails s + 1,
                   fails_since_feedback := fails_since_feedback s + 1,
                   pending_fail_code := stash_revised_code response_judge (pending_fail_code s)\<rparr>
        in if MAX_FAIL_WO_FDBK \<le> fails_since_feedback s1 then
             let user_feedback = request_user_feedback (feedback_line i);
                 s2 = if_feedback user_feedback (\<lambda>t. apply_feedback t s1) s1
             in s2\<lparr>fails_since_feedback := 0\<rparr>
           else s1
      else
        s\<lparr>pending_fail_code := stash_revised_code response_judge (pending_fail_code s)\<rparr>)"

definition iteration :: "globals \<Rightarrow> io \<Rightarrow> loop_state \<Rightarrow> loop_state" where
  "iteration g i s =
     (let s0 = s\<lparr>conversation_history :=
                  prune_history (conversation_history s) MAX_CODE_HISTORY\<rparr>
      in verdict_step i (judge_step g i (run_step g i (generation_step g i s0))))"

text \<open>
  The loop, run on the inputs of its successive passes: it stops at the first state with
  \<^verbatim>\<open>project_complete\<close> set, and is still running when the inputs are used up.
\<close>

fun main_loop :: "globals \<Rightarrow> io list \<Rightarrow> loop_state \<Rightarrow> loop_state" where
  "main_loop g [] s = s"
| "main_loop g (i # ios) s =
     (if project_complete s then s else main_loop g ios (iteration g i s))"

text \<open>The pass that ends the loop: a Pass verdict and a blank line at the prompt.\<close>

definition halts :: "io \<Rightarrow> bool" where
  "halts i = (classify_reply (judge_reply i) = Pass \<and> py_strip (feedback_line i) = [])"

text \<open>Names, states and inputs for the worked runs below.\<close>

definition g0 :: globals where
  "g0 = \<lparr>script_name = ''v42-rel1'', timestamp = ''20250326T010203Z'',
          project_description = ''print Hello''\<rparr>"

definition pending_state :: loop_state where
  "pending_state =
     \<lparr>conversation_history = [sys_msg, task_msg], feedback_round = 0, code_iter = 1,
      project_complete = False, last_run_output = [], current_code = [],
      total_passes = 0, total_fails = 9, pending_fail_code = Some ''print(1)'',
      fails_since_feedback = 9, files = Map.empty\<rparr>"

definition fail_io :: io where
  "fail_io = \<lparr>gen_reply = [], run_result = ''1'', judge_reply = FAIL_STR,
               feedback_line = ''  ''\<rparr>"

definition pass_io :: io where
  "pass_io = \<lparr>gen_reply = [], run_result = ''1'', judge_reply = PASS_STR,
               feedback_line = []\<rparr>"

definition start_state :: loop_state where
  "start_state =
     \<lparr>conversation_history = [sys_msg, task_msg], feedback_round = 0, code_iter = 0,
      project_complete = False, last_run_output = [], current_code = [],
      total_passes = 0, total_fails = 0, pending_fail_code = None,
      fails_since_feedback = 0, files = Map.empty\<rparr>"

definition first_io :: io where
  "first_io =
     \<lparr>gen_reply = ''```python'' @ NL @ ''print(0)'' @ NL @ ''```'',
      run_result = ''0'',
      judge_reply = FAIL_STR @ NL @ ''```python'' @ NL @ ''print(1)'' @ NL @ ''```'',
      feedback_line = []\<rparr>"

lemma complete_generation_step:
  "project_complete (snd (generation_step g i s)) = project_complete s"
  by (simp add: generation_step_def Let_def split: option.splits)

lemma complete_run_step:
  "project_complete (run_step g i cs) = project_complete (snd cs)"
  by (cases cs) (simp add: run_step_def)

lemma complete_judge_step:
  "project_complete (judge_step g i s) = project_complete s"
  by (simp add: judge_step_def Let_def)

lemma complete_apply_feedback:
  "project_complete (apply_feedback u s) = project_complete s"
  by (simp add: apply_feedback_def handle_user_feedback_def Let_def)

lemma if_feedback_request:
  "if_feedback (request_user_feedback l) yes no = (if py_strip l \<noteq> [] then yes l else no)"
  by (auto simp: if_feedback_def request_user_feedback_def py_strip_def py_rstrip_def)

lemma classify_reply_Pass: "(classify_reply r = Pass) = has_pass r"
  by (simp add: classify_reply_def)

lemma complete_verdict_step:
  "project_complete (verdict_step i s) = (project_complete s \<or> halts i)"
  by (auto simp: verdict_step_def Let_def halts_def classify_reply_Pass if_feedback_request
      complete_apply_feedback)

lemma complete_iteration:
  "project_complete (iteration g i s) = (project_complete s \<or> halts i)"
  by (simp add: iteration_def Let_def complete_verdict_step complete_judge_step
      complete_run_step complete_generation_step)

lemma complete_main_loop:
  "project_complete (main_loop g ios s) = (project_complete s \<or> list_ex halts ios)"
  by (induction ios arbitrary: s) (auto simp: complete_iteration)

lemma classify_reply_Fail: "(classify_reply r = Fail) = (\<not> has_pass r \<and> has_fail r)"
  by (simp add: classify_reply_def)

lemma fails_generation_step:
  "fails_since_feedback (snd (generation_step g i s)) = fails_since_feedback s"
  by (simp add: generation_step_def Let_def split: option.splits)

lemma fails_run_step:
  "fails_since_feedback (run_step g i cs) = fails_since_feedback (snd cs)"
  by (cases cs) (simp add: run_step_def)

lemma fails_judge_step:
  "fails_since_feedback (judge_step g i s) = fails_since_feedback s"
  by (simp add: judge_step_def Let_def)

lemma forced_feedback_resets:
  assumes "classify_reply (judge_reply i) = Fail"
    and "MAX_FAIL_WO_FDBK \<le> fails_since_feedback s + 1"
  shows "fails_since_feedback (verdict_step i s) = 0"
  using assms by (simp add: verdict_step_def Let_def classify_reply_Fail)

text \<open>
  C2.  A pass of the loop started in a running state sets \<^verbatim>\<open>project_complete\<close> exactly when
  the judge's reply is classified Pass and the line typed at the prompt is blank; so the
  loop run on any sequence of passes has halted exactly when one of them was such a pass.
  A Fail reply, an Incomplete reply and feedback after a Pass never halt it, and when a
  Fail reaches the threshold of consecutive fails the forced prompt only resets the
  counter to 0, whatever is typed.
\<close>

theorem main_loop_halts_only_on_accepted_pass:
  assumes "\<not> project_complete s"
  shows "project_complete (iteration g i s) = halts i
         \<and> project_complete (main_loop g ios s) = list_ex halts ios
         \<and> (classify_reply (judge_reply i) = Fail
                \<and> MAX_FAIL_WO_FDBK \<le> fails_since_feedback s + 1
              \<longrightarrow> \<not> project_complete (iteration g i s)
                  \<and> fails_since_feedback (iteration g i s) = 0)"
proof -
  have one: "project_complete (iteration g i s) = halts i"
    using assms by (simp add: complete_iteration)
  have two: "project_complete (main_loop g ios s) = list_ex halts ios"
    using assms by (simp add: complete_main_loop)
  have three: "\<not> project_complete (iteration g i s) \<and> fails_since_feedback (iteration g i s) = 0"
    if f: "classify_reply (judge_reply i) = Fail"
      and m: "MAX_FAIL_WO_FDBK \<le> fails_since_feedback s + 1"
  proof -
    have "\<not> halts i" using f by (simp add: halts_def)
    then have "\<not> project_complete (iteration g i s)" using one by simp
    moreover have "fails_since_feedback (iteration g i s) = 0"
      unfolding iteration_def Let_def
      by (rule forced_feedback_resets [OF f])
        (simp add: fails_judge_step fails_run_step fails_generation_step m)
    ultimately show ?thesis by simp
  qed
  from one two three show ?thesis by blast
qed

lemma classify_examples:
  "classify_reply FAIL_STR = Fail" "classify_reply PASS_STR = Pass"
  by (simp_all add: classify_reply_def has_pass_PASS has_fail_FAIL not_has_pass_FAIL)

theorem main_loop_halts_only_on_accepted_pass_witness:
  "\<not> project_complete pending_state
   \<and> classify_reply (judge_reply fail_io) = Fail
   \<and> MAX_FAIL_WO_FDBK \<le> fails_since_feedback pending_state + 1
   \<and> \<not> project_complete (iteration g0 fail_io pending_state)
   \<and> fails_since_feedback (iteration g0 fail_io pending_state) = 0
   \<and> project_complete (iteration g0 pass_io pending_state)
   \<and> project_complete (main_loop g0 [fail_io, pass_io, fail_io] pending_state)"
proof -
  have a: "\<not> project_complete pending_state" by (simp add: pending_state_def)
  have b: "classify_reply (judge_reply fail_io) = Fail"
    by (simp add: fail_io_def classify_examples)
  have c: "MAX_FAIL_WO_FDBK \<le> fails_since_feedback pending_state + 1"
    by (simp add: pending_state_def MAX_FAIL_WO_FDBK_def)
  have d: "halts pass_io"
    by (simp add: halts_def pass_io_def classify_examples py_strip_def py_rstrip_def)
  have e: "\<not> halts fail_io" using b by (simp add: halts_def)
  show ?thesis
    using main_loop_halts_only_on_accepted_pass [OF a, of g0 fail_io "[fail_io, pass_io, fail_io]"]
      main_loop_halts_only_on_accepted_pass [OF a, of g0 pass_io "[]"] a b c d e
    by (simp del: main_loop.simps)
qed

lemma files_judge_step: "files (judge_step g i s) = files s"
  by (simp add: judge_step_def Let_def)

lemma files_apply_feedback: "files (apply_feedback u s) = files s"
  by (simp add: apply_feedback_def handle_user_feedback_def Let_def)

lemma files_verdict_step: "files (verdict_step i s) = files s"
  by (simp add: verdict_step_def Let_def if_feedback_request files_apply_feedback)

lemma files_iteration_reused:
  assumes "pending_fail_code s = Some code" and "py_strip code \<noteq> []"
  shows "files (iteration g i s)
           = (files s)(output_file_name g (feedback_round s) (code_iter s + 1) \<mapsto> run_result i)"
  using assms
  by (simp add: iteration_def Let_def files_verdict_step files_judge_step run_step_def
      generation_step_def save_output_permanently_def)

lemma files_iteration_generated:
  assumes "pending_fail_code s = None" and "py_strip (extract_code_blocks (gen_reply i)) \<noteq> []"
  shows "files (iteration g i s)
           = (files s)(code_file_name g (feedback_round s) (code_iter s + 1)
                         \<mapsto> extract_code_blocks (gen_reply i),
                       output_file_name g (feedback_round s) (code_iter s + 1)
                         \<mapsto> run_result i)"
  using assms
  by (simp add: iteration_def Let_def files_verdict_step files_judge_step run_step_def
      generation_step_def save_output_permanently_def save_code_permanently_def)

lemma file_names_g0:
  "output_file_name g0 0 2 = ''v42-rel1_20250326T010203Z_fdbk0_iter2.txt''"
  "code_file_name g0 0 2 = ''v42-rel1_20250326T010203Z_fdbk0_iter2.py''"
  by (simp_all add: output_file_name_def code_file_name_def g0_def py_str_int_def digit_char_def)

lemma file_names_g0_first:
  "output_file_name g0 0 1 = ''v42-rel1_20250326T010203Z_fdbk0_iter1.txt''"
  "code_file_name g0 0 1 = ''v42-rel1_20250326T010203Z_fdbk0_iter1.py''"
  by (simp_all add: output_file_name_def code_file_name_def g0_def py_str_int_def digit_char_def)

lemma current_code_verdict_step: "current_code (verdict_step i s) = current_code s"
  by (simp add: verdict_step_def Let_def if_feedback_request apply_feedback_def
      handle_user_feedback_def)

lemma current_code_iteration_reused:
  assumes "pending_fail_code s = Some code" and "py_strip code \<noteq> []"
  shows "current_code (iteration g i s) = code"
  using assms
  by (simp add: iteration_def Let_def current_code_verdict_step judge_step_def run_step_def
      generation_step_def)

lemma iteration_plain_fail:
  assumes "\<not> has_pass (judge_reply i)" and "has_fail (judge_reply i)"
    and "fails_since_feedback s + 1 < MAX_FAIL_WO_FDBK"
  shows "pending_fail_code (iteration g i s) = stash_revised_code (judge_reply i) None"
    and "feedback_round (iteration g i s) = feedback_round s"
    and "code_iter (iteration g i s) = code_iter s + 1"
  using assms
  by (simp_all add: iteration_def Let_def verdict_step_def judge_step_def run_step_def
      generation_step_def split: option.splits)

lemma first_io_replies:
  "extract_code_blocks (gen_reply first_io) = ''print(0)''"
  "extract_code_blocks (judge_reply first_io) = ''print(1)''"
  "has_fail (judge_reply first_io)" "\<not> has_pass (judge_reply first_io)"
proof -
  show "extract_code_blocks (gen_reply first_io) = ''print(0)''"
    by (simp add: first_io_def NL_def extract_code_blocks_def m_pattern_def FENCE_def
        m_fence_def is_space_def)
  show "extract_code_blocks (judge_reply first_io) = ''print(1)''"
    by (simp add: first_io_def NL_def FAIL_STR_def extract_code_blocks_def m_pattern_def
        FENCE_def m_fence_def is_space_def)
  show "has_fail (judge_reply first_io)"
    by (simp add: first_io_def has_fail_def str_contains_def py_lower_append)
  show "\<not> has_pass (judge_reply first_io)"
  proof
    assume "has_pass (judge_reply first_io)"
    then have "set (py_lower PASS_STR) \<subseteq> set (py_lower (judge_reply first_io))"
      unfolding has_pass_def str_contains_def by (rule set_mono_sublist)
    moreover have "CHR ''w'' \<in> set (py_lower PASS_STR)" by (simp add: lower_PASS)
    ultimately have "CHR ''w'' \<in> set (py_lower (judge_reply first_io))" by blast
    then show False
      by (simp add: first_io_def py_lower_append lower_FAIL)
        (simp add: py_lower_def NL_def lower_char_def)
  qed
qed

lemma py_strip_print:
  "py_strip ''print(0)'' \<noteq> []" "py_strip ''print(1)'' \<noteq> []"
  by (simp_all add: py_strip_def py_rstrip_def is_space_def)

text \<open>
  C3 on a run of two passes from the start.  The first pass generates \<^verbatim>\<open>print(0)\<close>, saves
  it and its output, and the judge answers with the FAIL sentence and the block
  \<^verbatim>\<open>print(1)\<close>.  The second pass reuses that block as code iteration 2: it runs it and
  writes the output file of iteration 2, but no code file of iteration 2 is written.
\<close>

theorem reused_code_is_not_saved:
  "files (main_loop g0 [first_io, pass_io] start_state)
     = [''v42-rel1_20250326T010203Z_fdbk0_iter1.py'' \<mapsto> ''print(0)'',
        ''v42-rel1_20250326T010203Z_fdbk0_iter1.txt'' \<mapsto> ''0'',
        ''v42-rel1_20250326T010203Z_fdbk0_iter2.txt'' \<mapsto> ''1'']
   \<and> current_code (main_loop g0 [first_io, pass_io] start_state) = ''print(1)''
   \<and> files (main_loop g0 [first_io, pass_io] start_state)
         ''v42-rel1_20250326T010203Z_fdbk0_iter2.py'' = None"
proof -
  define s1 where "s1 = iteration g0 first_io start_state"
  have c0: "\<not> project_complete start_state" "pending_fail_code start_state = None"
    "fails_since_feedback start_state + 1 < MAX_FAIL_WO_FDBK"
    by (simp_all add: start_state_def MAX_FAIL_WO_FDBK_def)
  have f1: "files s1 = [''v42-rel1_20250326T010203Z_fdbk0_iter1.py'' \<mapsto> ''print(0)'',
                        ''v42-rel1_20250326T010203Z_fdbk0_iter1.txt'' \<mapsto> ''0'']"
    unfolding s1_def
    using files_iteration_generated [of start_state first_io g0] c0(2)
    by (simp add: first_io_replies py_strip_print)
      (simp add: start_state_def file_names_g0_first first_io_def)
  have p1: "pending_fail_code s1 = Some ''print(1)''"
    unfolding s1_def
    using iteration_plain_fail(1) [OF first_io_replies(4) first_io_replies(3) c0(3), of g0]
    by (simp add: stash_revised_code_def first_io_replies py_strip_print)
  have r1: "feedback_round s1 = 0" "code_iter s1 = 1"
    unfolding s1_def
    using iteration_plain_fail(2,3) [OF first_io_replies(4) first_io_replies(3) c0(3), of g0]
    by (simp_all add: start_state_def)
  have n1: "\<not> project_complete s1"
    unfolding s1_def
    by (simp add: complete_iteration c0 halts_def classify_reply_Pass first_io_replies)
  have m: "main_loop g0 [first_io, pass_io] start_state = iteration g0 pass_io s1"
    using c0(1) n1 by (simp add: s1_def)
  have f2: "files (iteration g0 pass_io s1)
              = (files s1)(''v42-rel1_20250326T010203Z_fdbk0_iter2.txt'' \<mapsto> ''1'')"
    using files_iteration_reused [OF p1 py_strip_print(2), of g0 pass_io]
    by (simp add: r1 file_names_g0 pass_io_def)
  have c2: "current_code (iteration g0 pass_io s1) = ''print(1)''"
    using p1 py_strip_print(2) by (rule current_code_iteration_reused)
  show ?thesis by (simp only: m f2 c2 f1) simp
qed

section \<open>openai_chat_completion\<close>

text \<open>
  \<^verbatim>\<open>openai_chat_completion\<close> talks to the backend through library calls.  Their outcomes
  are inputs of the model: \<^verbatim>\<open>requests.post\<close> raises or returns a response with a status
  code and a body; \<^verbatim>\<open>raise_for_status\<close> raises for the status codes 400 to 599;
  \<^verbatim>\<open>response.json()\<close> raises when the body is not JSON and otherwise returns the decoded
  value; subscripting a decoded value raises \<^verbatim>\<open>KeyError\<close>, \<^verbatim>\<open>IndexError\<close> or
  \<^verbatim>\<open>TypeError\<close> as Python does.  A value the function returns or an exception it lets
  through is \<open>Inr\<close> or \<open>Inl\<close> of its result.
\<close>

datatype json =
    JNull | JBool bool | JNum int | JStr string | JArr "json list" | JObj "(string \<times> json) list"



















end
